theory Spec2Isabelle
  imports Main
begin

section \<open>Synchronisation events\<close>

text \<open>
  Each operation is embedded as one thread runs it. What the operation does to its
  mutexes and to the condition variable is kept as the list of synchronisation calls it
  makes, in program order. A \<^verbatim>\<open>std::lock_guard\<close> contributes \<open>Lock\<close> where it is
  constructed and \<open>Unlock\<close> where its scope ends. A wait on the condition variable
  contributes \<open>Unlock\<close> of the mutex it releases, \<open>Wait\<close> for the suspension, and
  \<open>Lock\<close> of that mutex when the thread wakes up.

  The queue owns \<^verbatim>\<open>head_mutex\<close> and \<^verbatim>\<open>tail_mutex\<close>. A stack owns the mutex
  \<^verbatim>\<open>m\<close>; since stacks can be copied, the mutex of a stack object carries the identity
  of that object's mutex.

  Names: the member functions of \<^verbatim>\<open>threadsafe_queue\<close> keep their names (\<^verbatim>\<open>empty\<close>
  is \<open>queue_empty\<close>), those of \<^verbatim>\<open>threadsafe_stack\<close> carry the prefix \<open>stack_\<close>, and
  the overload of a function that takes \<^verbatim>\<open>T& value\<close> has the suffix \<open>_ref\<close>; it takes
  the content of the caller's storage and gives back what the storage holds afterwards.
\<close>

datatype mutex = Head_mutex | Tail_mutex | Stack_mutex nat

datatype event = Lock mutex | Unlock mutex | Notify_one | Wait


section \<open>The lock-based stack (\<^verbatim>\<open>Lock_based/threadsafe_stack.cpp\<close>)\<close>

text \<open>\<^verbatim>\<open>struct empty_stack : std::exception\<close>\<close>

datatype exn = Empty_stack

text \<open>
  A call either returns a value or throws; in both cases it leaves a state behind
  (for the overloads with an out-parameter the state includes the caller's storage).
\<close>

datatype ('r, 's) result = Returned 'r 's | Thrown exn 's

fun state_after :: "event list \<times> ('r, 's) result \<Rightarrow> 's" where
  "state_after (es, Returned r s) = s"
| "state_after (es, Thrown e s) = s"

text \<open>
  \<^verbatim>\<open>std::stack<T> data; mutable std::mutex m;\<close>
  The sequence is kept bottom first: \<^verbatim>\<open>push\<close> appends at the back, \<^verbatim>\<open>top\<close> is the
  last element, as in the underlying \<^verbatim>\<open>std::deque\<close>.
\<close>

record 'a threadsafe_stack =
  stack_data :: "'a list"
  m :: nat

text \<open>\<^verbatim>\<open>threadsafe_stack() = default\<close>; \<open>mu\<close> is the mutex constructed with the object.\<close>

definition threadsafe_stack_new :: "nat \<Rightarrow> 'a threadsafe_stack" where
  "threadsafe_stack_new mu = \<lparr>stack_data = [], m = mu\<rparr>"

text \<open>
  Constructing a mutex makes an object different from every mutex alive at that moment.
  \<open>new_mutex live\<close> is the identity of the mutex constructed while the mutexes \<open>live\<close>
  are alive: one more than the largest of them.
\<close>

definition new_mutex :: "nat list \<Rightarrow> nat" where
  "new_mutex live = Suc (foldr max live 0)"

text \<open>
  \<^verbatim>\<open>threadsafe_stack(const threadsafe_stack& other)\<close>: the members of the new object are
  default-constructed, its mutex included, then \<^verbatim>\<open>other.m\<close> is locked and
  \<^verbatim>\<open>data = other.data\<close> is assigned. The source \<open>other\<close> is alive throughout the call,
  and so are the objects whose mutexes are \<open>live\<close>; the mutex of the new object is
  constructed while all of these exist. The result is the new object; the state left
  behind is \<open>other\<close>.
\<close>

definition stack_copy ::
  "nat list \<Rightarrow> 'a threadsafe_stack \<Rightarrow>
     event list \<times> ('a threadsafe_stack, 'a threadsafe_stack) result" where
  "stack_copy live other =
     (let this = threadsafe_stack_new (new_mutex (m other # live));
          this = this\<lparr>stack_data := stack_data other\<rparr>
      in ([Lock (Stack_mutex (m other)), Unlock (Stack_mutex (m other))], Returned this other))"

definition stack_push ::
  "'a \<Rightarrow> 'a threadsafe_stack \<Rightarrow> event list \<times> (unit, 'a threadsafe_stack) result" where
  "stack_push new_value s =
     ([Lock (Stack_mutex (m s)), Unlock (Stack_mutex (m s))],
      Returned () (s\<lparr>stack_data := stack_data s @ [new_value]\<rparr>))"

text \<open>\<^verbatim>\<open>std::shared_ptr<T> pop()\<close>; the pointer made by \<^verbatim>\<open>make_shared\<close> is never null.\<close>

definition stack_pop ::
  "'a threadsafe_stack \<Rightarrow> event list \<times> ('a, 'a threadsafe_stack) result" where
  "stack_pop s =
     (if stack_data s = []
      then ([Lock (Stack_mutex (m s)), Unlock (Stack_mutex (m s))], Thrown Empty_stack s)
      else ([Lock (Stack_mutex (m s)), Unlock (Stack_mutex (m s))],
            Returned (last (stack_data s)) (s\<lparr>stack_data := butlast (stack_data s)\<rparr>)))"

text \<open>\<^verbatim>\<open>void pop(T& value)\<close>; the state is the caller's storage and the stack.\<close>

definition stack_pop_ref ::
  "'a \<Rightarrow> 'a threadsafe_stack \<Rightarrow> event list \<times> (unit, 'a \<times> 'a threadsafe_stack) result" where
  "stack_pop_ref value s =
     (if stack_data s = []
      then ([Lock (Stack_mutex (m s)), Unlock (Stack_mutex (m s))], Thrown Empty_stack (value, s))
      else ([Lock (Stack_mutex (m s)), Unlock (Stack_mutex (m s))],
            Returned () (last (stack_data s), s\<lparr>stack_data := butlast (stack_data s)\<rparr>)))"

definition stack_empty ::
  "'a threadsafe_stack \<Rightarrow> event list \<times> (bool, 'a threadsafe_stack) result" where
  "stack_empty s =
     ([Lock (Stack_mutex (m s)), Unlock (Stack_mutex (m s))], Returned (stack_data s = []) s)"

text \<open>
  Single-threaded drivers, as in \<^verbatim>\<open>concurrent_push\<close> and \<^verbatim>\<open>concurrent_pop\<close> of the
  source's tests: push a sequence of values in order, and pop \<open>n\<close> times collecting what
  each call gave (the value, or the exception that was caught).
\<close>

fun push_all :: "'a list \<Rightarrow> 'a threadsafe_stack \<Rightarrow> 'a threadsafe_stack" where
  "push_all [] s = s"
| "push_all (a # as) s = push_all as (state_after (stack_push a s))"

fun pop_n :: "nat \<Rightarrow> 'a threadsafe_stack \<Rightarrow> (exn + 'a) list \<times> 'a threadsafe_stack" where
  "pop_n 0 s = ([], s)"
| "pop_n (Suc n) s =
     (case snd (stack_pop s) of
        Returned x s' \<Rightarrow> (case pop_n n s' of (rs, s'') \<Rightarrow> (Inr x # rs, s''))
      | Thrown e s' \<Rightarrow> (case pop_n n s' of (rs, s'') \<Rightarrow> (Inl e # rs, s'')))"

fun pop_ref_n :: "nat \<Rightarrow> 'a \<Rightarrow> 'a threadsafe_stack \<Rightarrow> (exn + 'a) list \<times> 'a threadsafe_stack" where
  "pop_ref_n 0 value s = ([], s)"
| "pop_ref_n (Suc n) value s =
     (case snd (stack_pop_ref value s) of
        Returned u (value', s') \<Rightarrow> (case pop_ref_n n value' s' of (rs, s'') \<Rightarrow> (Inr value' # rs, s''))
      | Thrown e (value', s') \<Rightarrow> (case pop_ref_n n value' s' of (rs, s'') \<Rightarrow> (Inl e # rs, s'')))"


section \<open>The queue with a head lock and a tail lock (\<^verbatim>\<open>threadsafe_queue\<close>)\<close>

subsection \<open>Nodes and the free store\<close>

text \<open>
  \<^verbatim>\<open>struct node { std::shared_ptr<T> data; std::unique_ptr<node> next; }\<close>
  A pointer to a node is an address, \<open>None\<close> is the null pointer. The payload pointer
  \<open>data\<close> is the value it points to, or \<open>None\<close> when it is null.
\<close>

type_synonym addr = nat

record 'a node =
  data :: "'a option"
  nxt :: "addr option"

text \<open>
  The free store is an arena indexed by address: \<open>Some n\<close> is a live node, \<open>None\<close> a
  released one, and an address beyond the arena has never been allocated.
\<close>

type_synonym 'a store = "'a node option list"

definition lookup :: "'a store \<Rightarrow> addr \<Rightarrow> 'a node option" where
  "lookup h a = (if a < length h then h ! a else None)"

text \<open>\<^verbatim>\<open>new node\<close>: both members are default-constructed, that is null.\<close>

definition new_node :: "'a store \<Rightarrow> addr \<times> 'a store" where
  "new_node h = (length h, h @ [Some \<lparr>data = None, nxt = None\<rparr>])"

text \<open>
  Destruction of a \<^verbatim>\<open>std::unique_ptr<node>\<close>: the node it owns is released, and with it
  the successor that node owns, and so on. The first argument bounds the recursion; each
  step releases a live node, so the size of the arena is always enough.
\<close>

fun delete_node :: "nat \<Rightarrow> addr option \<Rightarrow> 'a store \<Rightarrow> 'a store" where
  "delete_node k None h = h"
| "delete_node 0 (Some a) h = h"
| "delete_node (Suc k) (Some a) h =
     (case lookup h a of
        None \<Rightarrow> h
      | Some n \<Rightarrow> delete_node k (nxt n) (h[a := None]))"

definition destroy :: "addr option \<Rightarrow> 'a store \<Rightarrow> 'a store" where
  "destroy p h = delete_node (length h) p h"

subsection \<open>The queue object and the outcome of a call\<close>

text \<open>
  \<^verbatim>\<open>std::unique_ptr<node> head; node* tail;\<close> together with the nodes in the free store.
  The two mutexes and the condition variable appear in the events of each operation.
\<close>

record 'a threadsafe_queue =
  head :: "addr option"
  tail :: addr
  nodes :: "'a store"

text \<open>
  A call returns a result and leaves a state; or it never returns because it stays
  suspended on the condition variable; or it dereferences a null or dangling pointer,
  which is undefined behaviour.
\<close>

datatype ('r, 's) outcome = Returns 'r 's | Blocks 's | Undefined

subsection \<open>The operations\<close>

text \<open>
  \<^verbatim>\<open>threadsafe_queue() : head(new node), tail(head.get()) {}\<close>
  The first node of an empty free store has address 0.
\<close>

definition threadsafe_queue_new :: "'a threadsafe_queue" where
  "threadsafe_queue_new =
     \<lparr>head = Some 0, tail = 0, nodes = [Some \<lparr>data = None, nxt = None\<rparr>]\<rparr>"

text \<open>
  \<^verbatim>\<open>push\<close>: the payload and the new node \<open>p\<close> are made before the lock is taken. Under
  \<^verbatim>\<open>tail_mutex\<close>: \<^verbatim>\<open>tail->data = new_data\<close>, \<^verbatim>\<open>tail->next = std::move(p)\<close> (which
  destroys whatever successor the tail owned before), \<^verbatim>\<open>tail = new_tail\<close>. The lock
  guard's scope ends, then \<^verbatim>\<open>data_cond.notify_one()\<close>.
\<close>

definition push ::
  "'a \<Rightarrow> 'a threadsafe_queue \<Rightarrow> event list \<times> (unit, 'a threadsafe_queue) outcome" where
  "push new_value q =
     (let new_data = Some new_value in
      case new_node (nodes q) of (p, h) \<Rightarrow>
        (case lookup h (tail q) of
           None \<Rightarrow> ([Lock Tail_mutex], Undefined)
         | Some t \<Rightarrow>
             (let new_tail = p;
                  h1 = h[tail q := Some (t\<lparr>data := new_data\<rparr>)];
                  h2 = destroy (nxt t) (h1[tail q := Some (t\<lparr>data := new_data, nxt := Some p\<rparr>)])
              in ([Lock Tail_mutex, Unlock Tail_mutex, Notify_one],
                  Returns () (q\<lparr>tail := new_tail, nodes := h2\<rparr>)))))"

definition get_tail :: "'a threadsafe_queue \<Rightarrow> event list \<times> addr" where
  "get_tail q = ([Lock Tail_mutex, Unlock Tail_mutex], tail q)"

text \<open>
  \<^verbatim>\<open>pop_head\<close>: \<^verbatim>\<open>old_head = std::move(head); head = std::move(old_head->next);\<close>
  Moving out of \<^verbatim>\<open>old_head->next\<close> leaves it null. No lock is taken here.
\<close>

definition pop_head :: "'a threadsafe_queue \<Rightarrow> (addr, 'a threadsafe_queue) outcome" where
  "pop_head q =
     (case head q of
        None \<Rightarrow> Undefined
      | Some old_head \<Rightarrow>
          (case lookup (nodes q) old_head of
             None \<Rightarrow> Undefined
           | Some n \<Rightarrow>
               Returns old_head
                 (q\<lparr>head := nxt n, nodes := (nodes q)[old_head := Some (n\<lparr>nxt := None\<rparr>)]\<rparr>)))"

definition queue_empty ::
  "'a threadsafe_queue \<Rightarrow> event list \<times> (bool, 'a threadsafe_queue) outcome" where
  "queue_empty q =
     (case get_tail q of (es, t) \<Rightarrow>
        ([Lock Head_mutex] @ es @ [Unlock Head_mutex], Returns (head q = Some t) q))"

text \<open>\<^verbatim>\<open>*head->data\<close>, as read by the overloads that assign to \<^verbatim>\<open>value\<close>.\<close>

definition deref_head_data :: "'a threadsafe_queue \<Rightarrow> 'a option" where
  "deref_head_data q =
     (case head q of
        None \<Rightarrow> None
      | Some a \<Rightarrow> (case lookup (nodes q) a of None \<Rightarrow> None | Some n \<Rightarrow> data n))"

text \<open>\<^verbatim>\<open>try_pop_head()\<close>: the result is the removed node, or null when the queue is empty.\<close>

definition try_pop_head ::
  "'a threadsafe_queue \<Rightarrow> event list \<times> (addr option, 'a threadsafe_queue) outcome" where
  "try_pop_head q =
     (case get_tail q of (es, t) \<Rightarrow>
        if head q = Some t
        then ([Lock Head_mutex] @ es @ [Unlock Head_mutex], Returns None q)
        else (case pop_head q of
                Returns old_head q' \<Rightarrow>
                  ([Lock Head_mutex] @ es @ [Unlock Head_mutex], Returns (Some old_head) q')
              | Blocks q' \<Rightarrow> ([Lock Head_mutex] @ es, Blocks q')
              | Undefined \<Rightarrow> ([Lock Head_mutex] @ es, Undefined)))"

text \<open>\<^verbatim>\<open>try_pop_head(T& value)\<close>: the state is the caller's storage and the queue.\<close>

definition try_pop_head_ref ::
  "'a \<Rightarrow> 'a threadsafe_queue \<Rightarrow>
     event list \<times> (addr option, 'a \<times> 'a threadsafe_queue) outcome" where
  "try_pop_head_ref value q =
     (case get_tail q of (es, t) \<Rightarrow>
        if head q = Some t
        then ([Lock Head_mutex] @ es @ [Unlock Head_mutex], Returns None (value, q))
        else (case deref_head_data q of
                None \<Rightarrow> ([Lock Head_mutex] @ es, Undefined)
              | Some v \<Rightarrow>
                  (case pop_head q of
                     Returns old_head q' \<Rightarrow>
                       ([Lock Head_mutex] @ es @ [Unlock Head_mutex],
                        Returns (Some old_head) (v, q'))
                   | Blocks q' \<Rightarrow> ([Lock Head_mutex] @ es, Blocks (v, q'))
                   | Undefined \<Rightarrow> ([Lock Head_mutex] @ es, Undefined))))"

text \<open>
  \<^verbatim>\<open>try_pop()\<close>: \<^verbatim>\<open>return old_head ? old_head->data : std::shared_ptr<T>()\<close>; the removed
  node is destroyed when \<^verbatim>\<open>old_head\<close> goes out of scope, after the head lock was released
  inside \<^verbatim>\<open>try_pop_head\<close>.
\<close>

definition try_pop ::
  "'a threadsafe_queue \<Rightarrow> event list \<times> ('a option, 'a threadsafe_queue) outcome" where
  "try_pop q =
     (case try_pop_head q of
        (es, Returns old_head q') \<Rightarrow>
          (case old_head of
             None \<Rightarrow> (es, Returns None q')
           | Some a \<Rightarrow>
               (case lookup (nodes q') a of
                  None \<Rightarrow> (es, Undefined)
                | Some n \<Rightarrow>
                    (es, Returns (data n) (q'\<lparr>nodes := destroy (Some a) (nodes q')\<rparr>))))
      | (es, Blocks q') \<Rightarrow> (es, Blocks q')
      | (es, Undefined) \<Rightarrow> (es, Undefined))"

text \<open>\<^verbatim>\<open>bool try_pop(T& value)\<close>: \<^verbatim>\<open>return old_head != nullptr\<close>.\<close>

definition try_pop_ref ::
  "'a \<Rightarrow> 'a threadsafe_queue \<Rightarrow> event list \<times> (bool, 'a \<times> 'a threadsafe_queue) outcome" where
  "try_pop_ref value q =
     (case try_pop_head_ref value q of
        (es, Returns old_head (v, q')) \<Rightarrow>
          (es, Returns (old_head \<noteq> None) (v, q'\<lparr>nodes := destroy old_head (nodes q')\<rparr>))
      | (es, Blocks s) \<Rightarrow> (es, Blocks s)
      | (es, Undefined) \<Rightarrow> (es, Undefined))"

text \<open>
  \<^verbatim>\<open>data_cond.wait(head_lock, [&] { return head.get() != get_tail(); })\<close>, that is
  \<^verbatim>\<open>while (!pred()) wait(head_lock)\<close>, entered with the head lock held. Each round
  evaluates the predicate, which calls \<^verbatim>\<open>get_tail\<close>. When it holds, the loop ends with
  the head lock still held. Otherwise \<^verbatim>\<open>wait\<close> releases the head lock and suspends the
  thread. While it is suspended other threads may change the queue. \<open>env\<close> lists the
  states in which the thread finds the queue at its successive wake-ups (by a notification
  or spuriously); on waking, \<^verbatim>\<open>wait\<close> locks the head mutex again and the loop goes
  round. When no wake-up is left the thread stays suspended and the call never returns.
\<close>

fun data_cond_wait ::
  "'a threadsafe_queue list \<Rightarrow> 'a threadsafe_queue \<Rightarrow>
     event list \<times> (unit, 'a threadsafe_queue) outcome" where
  "data_cond_wait [] q =
     (case get_tail q of (es, t) \<Rightarrow>
        if head q \<noteq> Some t
        then (es, Returns () q)
        else (es @ [Unlock Head_mutex, Wait], Blocks q))"
| "data_cond_wait (woken # env) q =
     (case get_tail q of (es, t) \<Rightarrow>
        if head q \<noteq> Some t
        then (es, Returns () q)
        else (case data_cond_wait env woken of
                (es', out) \<Rightarrow> (es @ [Unlock Head_mutex, Wait, Lock Head_mutex] @ es', out)))"

text \<open>\<^verbatim>\<open>wait_for_data\<close>: takes \<^verbatim>\<open>head_mutex\<close>, waits, and returns the lock it holds.\<close>

definition wait_for_data ::
  "'a threadsafe_queue list \<Rightarrow> 'a threadsafe_queue \<Rightarrow>
     event list \<times> (unit, 'a threadsafe_queue) outcome" where
  "wait_for_data env q =
     (case data_cond_wait env q of (es, out) \<Rightarrow> ([Lock Head_mutex] @ es, out))"

definition wait_pop_head ::
  "'a threadsafe_queue list \<Rightarrow> 'a threadsafe_queue \<Rightarrow>
     event list \<times> (addr, 'a threadsafe_queue) outcome" where
  "wait_pop_head env q =
     (case wait_for_data env q of
        (es, Returns u q1) \<Rightarrow>
          (case pop_head q1 of
             Returns old_head q2 \<Rightarrow> (es @ [Unlock Head_mutex], Returns old_head q2)
           | Blocks q2 \<Rightarrow> (es, Blocks q2)
           | Undefined \<Rightarrow> (es, Undefined))
      | (es, Blocks q1) \<Rightarrow> (es, Blocks q1)
      | (es, Undefined) \<Rightarrow> (es, Undefined))"

definition wait_pop_head_ref ::
  "'a threadsafe_queue list \<Rightarrow> 'a \<Rightarrow> 'a threadsafe_queue \<Rightarrow>
     event list \<times> (addr, 'a \<times> 'a threadsafe_queue) outcome" where
  "wait_pop_head_ref env value q =
     (case wait_for_data env q of
        (es, Returns u q1) \<Rightarrow>
          (case deref_head_data q1 of
             None \<Rightarrow> (es, Undefined)
           | Some v \<Rightarrow>
               (case pop_head q1 of
                  Returns old_head q2 \<Rightarrow> (es @ [Unlock Head_mutex], Returns old_head (v, q2))
                | Blocks q2 \<Rightarrow> (es, Blocks (v, q2))
                | Undefined \<Rightarrow> (es, Undefined)))
      | (es, Blocks q1) \<Rightarrow> (es, Blocks (value, q1))
      | (es, Undefined) \<Rightarrow> (es, Undefined))"

text \<open>\<^verbatim>\<open>wait_and_pop()\<close>: \<^verbatim>\<open>return old_head->data\<close>, then the removed node is destroyed.\<close>

definition wait_and_pop ::
  "'a threadsafe_queue list \<Rightarrow> 'a threadsafe_queue \<Rightarrow>
     event list \<times> ('a option, 'a threadsafe_queue) outcome" where
  "wait_and_pop env q =
     (case wait_pop_head env q of
        (es, Returns old_head q') \<Rightarrow>
          (case lookup (nodes q') old_head of
             None \<Rightarrow> (es, Undefined)
           | Some n \<Rightarrow>
               (es, Returns (data n) (q'\<lparr>nodes := destroy (Some old_head) (nodes q')\<rparr>)))
      | (es, Blocks q') \<Rightarrow> (es, Blocks q')
      | (es, Undefined) \<Rightarrow> (es, Undefined))"

definition wait_and_pop_ref ::
  "'a threadsafe_queue list \<Rightarrow> 'a \<Rightarrow> 'a threadsafe_queue \<Rightarrow>
     event list \<times> (unit, 'a \<times> 'a threadsafe_queue) outcome" where
  "wait_and_pop_ref env value q =
     (case wait_pop_head_ref env value q of
        (es, Returns old_head (v, q')) \<Rightarrow>
          (es, Returns () (v, q'\<lparr>nodes := destroy (Some old_head) (nodes q')\<rparr>))
      | (es, Blocks s) \<Rightarrow> (es, Blocks s)
      | (es, Undefined) \<Rightarrow> (es, Undefined))"

subsection \<open>The chain of nodes and what it stores\<close>

text \<open>
  \<open>chain h p as\<close>: following the successor links from the pointer \<open>p\<close> visits exactly
  the live nodes at the addresses \<open>as\<close>, in this order, and ends at a null successor.
\<close>

primrec chain :: "'a store \<Rightarrow> addr option \<Rightarrow> addr list \<Rightarrow> bool" where
  "chain h p [] = (p = None)"
| "chain h p (a # as) =
     (p = Some a \<and> (case lookup h a of None \<Rightarrow> False | Some n \<Rightarrow> chain h (nxt n) as))"

definition payload :: "'a store \<Rightarrow> addr \<Rightarrow> 'a option" where
  "payload h a = (case lookup h a of None \<Rightarrow> None | Some n \<Rightarrow> data n)"

text \<open>
  \<open>queue_abs q as xs\<close>: the nodes owned through \<open>head\<close> are those at \<open>as\<close>, all
  different; the last of them is the one \<open>tail\<close> points to and has a null payload; the
  nodes before it carry the payloads \<open>xs\<close>, front of the queue first.
\<close>

definition queue_abs :: "'a threadsafe_queue \<Rightarrow> addr list \<Rightarrow> 'a list \<Rightarrow> bool" where
  "queue_abs q as xs =
     (chain (nodes q) (head q) as \<and> distinct as \<and> as \<noteq> [] \<and> last as = tail q
      \<and> map (payload (nodes q)) as = map Some xs @ [None])"

subsection \<open>Reachable states\<close>

text \<open>
  \<open>queue_reach q xs\<close>: the state \<open>q\<close> is reached from the constructor by a sequence of
  calls that returned, and \<open>xs\<close> are the values pushed so far and not yet removed by a pop
  (each pop that removes a node takes one value off the front). The calls are made one
  after the other, so a waiting call can only be woken spuriously, any number \<open>n\<close> of
  times, and finds the queue as it left it.
\<close>

inductive queue_reach :: "'a threadsafe_queue \<Rightarrow> 'a list \<Rightarrow> bool" where
  reach_new: "queue_reach threadsafe_queue_new []"
| reach_push:
    "queue_reach q xs \<Longrightarrow> snd (push v q) = Returns u q' \<Longrightarrow> queue_reach q' (xs @ [v])"
| reach_try_pop:
    "queue_reach q xs \<Longrightarrow> snd (try_pop q) = Returns r q'
       \<Longrightarrow> queue_reach q' (if r = None then xs else tl xs)"
| reach_try_pop_ref:
    "queue_reach q xs \<Longrightarrow> snd (try_pop_ref v q) = Returns b (v', q')
       \<Longrightarrow> queue_reach q' (if b then tl xs else xs)"
| reach_wait_and_pop:
    "queue_reach q xs \<Longrightarrow> snd (wait_and_pop (replicate n q) q) = Returns r q'
       \<Longrightarrow> queue_reach q' (tl xs)"
| reach_wait_and_pop_ref:
    "queue_reach q xs \<Longrightarrow> snd (wait_and_pop_ref (replicate n q) v q) = Returns u (v', q')
       \<Longrightarrow> queue_reach q' (tl xs)"
| reach_empty:
    "queue_reach q xs \<Longrightarrow> snd (queue_empty q) = Returns b q' \<Longrightarrow> queue_reach q' xs"

subsection \<open>Reading the locking discipline off the events\<close>

text \<open>
  \<open>acquisitions held es\<close> lists, for every \<open>Lock\<close> in \<open>es\<close>, the mutex acquired together
  with the mutexes the thread holds at that moment, starting from holding \<open>held\<close>.
\<close>

fun acquisitions :: "mutex list \<Rightarrow> event list \<Rightarrow> (mutex \<times> mutex list) list" where
  "acquisitions held [] = []"
| "acquisitions held (Lock mu # es) = (mu, held) # acquisitions (mu # held) es"
| "acquisitions held (Unlock mu # es) = acquisitions (removeAll mu held) es"
| "acquisitions held (Notify_one # es) = acquisitions held es"
| "acquisitions held (Wait # es) = acquisitions held es"


section \<open>Stack: proofs\<close>

lemma push_all_data: "push_all as s = s\<lparr>stack_data := stack_data s @ as\<rparr>"
  by (induction as arbitrary: s) (simp_all add: stack_push_def)

lemma pop_n_snoc:
  "pop_n (length as) (s\<lparr>stack_data := xs @ as\<rparr>) = (map Inr (rev as), s\<lparr>stack_data := xs\<rparr>)"
proof (induction as rule: rev_induct)
  case Nil
  show ?case by simp
next
  case (snoc a as)
  have "stack_pop (s\<lparr>stack_data := xs @ as @ [a]\<rparr>)
        = ([Lock (Stack_mutex (m s)), Unlock (Stack_mutex (m s))],
           Returned a (s\<lparr>stack_data := xs @ as\<rparr>))"
    by (simp add: stack_pop_def butlast_append)
  with snoc show ?case by simp
qed

lemma pop_ref_n_snoc:
  "pop_ref_n (length as) v (s\<lparr>stack_data := xs @ as\<rparr>) = (map Inr (rev as), s\<lparr>stack_data := xs\<rparr>)"
proof (induction as arbitrary: v rule: rev_induct)
  case Nil
  show ?case by simp
next
  case (snoc a as)
  have "stack_pop_ref v (s\<lparr>stack_data := xs @ as @ [a]\<rparr>)
        = ([Lock (Stack_mutex (m s)), Unlock (Stack_mutex (m s))],
           Returned () (a, s\<lparr>stack_data := xs @ as\<rparr>))"
    by (simp add: stack_pop_ref_def butlast_append)
  with snoc show ?case by simp
qed

text \<open>
  C2 (stack LIFO law). For every sequence \<open>as\<close> of values pushed in order onto a freshly
  constructed stack, the following \<open>length as\<close> pops (either overload) all succeed and give
  the values in reverse order of pushing; the stack they leave is the empty stack again,
  and \<open>empty\<close> on it returns true.
\<close>

theorem stack_lifo:
  "pop_n (length as) (push_all as (threadsafe_stack_new mu))
     = (map Inr (rev as), threadsafe_stack_new mu)
   \<and> pop_ref_n (length as) v (push_all as (threadsafe_stack_new mu))
     = (map Inr (rev as), threadsafe_stack_new mu)
   \<and> snd (stack_empty (snd (pop_n (length as) (push_all as (threadsafe_stack_new mu)))))
     = Returned True (threadsafe_stack_new mu)
   \<and> snd (stack_empty (snd (pop_ref_n (length as) v (push_all as (threadsafe_stack_new mu)))))
     = Returned True (threadsafe_stack_new mu)"
proof -
  let ?s = "threadsafe_stack_new mu :: 'a threadsafe_stack"
  have s: "?s\<lparr>stack_data := []\<rparr> = ?s"
    by (simp add: threadsafe_stack_new_def)
  have p: "push_all as ?s = ?s\<lparr>stack_data := [] @ as\<rparr>"
    by (simp add: push_all_data threadsafe_stack_new_def)
  have a: "pop_n (length as) (push_all as ?s) = (map Inr (rev as), ?s)"
    unfolding p pop_n_snoc s ..
  have b: "pop_ref_n (length as) v (push_all as ?s) = (map Inr (rev as), ?s)"
    unfolding p pop_ref_n_snoc s ..
  have e: "snd (stack_empty ?s) = Returned True ?s"
    by (simp add: stack_empty_def threadsafe_stack_new_def)
  show ?thesis
    unfolding a b using e by simp
qed


lemma fst_pop_n_Suc:
  "fst (pop_n (Suc n) s) =
     (case snd (stack_pop s) of
        Returned x s' \<Rightarrow> Inr x # fst (pop_n n s')
      | Thrown e s' \<Rightarrow> Inl e # fst (pop_n n s'))"
  by (simp split: result.splits prod.splits)

lemma pop_n_results_cong:
  "stack_data s = stack_data t \<Longrightarrow> fst (pop_n n s) = fst (pop_n n t)"
proof (induction n arbitrary: s t)
  case 0
  show ?case by simp
next
  case (Suc n)
  show ?case
  proof (cases "stack_data s = []")
    case True
    with Suc.prems have "stack_data t = []" by simp
    with True Suc.IH [of s t] Suc.prems show ?thesis
      unfolding fst_pop_n_Suc by (simp add: stack_pop_def)
  next
    case False
    with Suc.prems have nt: "stack_data t \<noteq> []" by simp
    have "fst (pop_n n (s\<lparr>stack_data := butlast (stack_data s)\<rparr>))
          = fst (pop_n n (t\<lparr>stack_data := butlast (stack_data t)\<rparr>))"
      by (rule Suc.IH) (simp add: Suc.prems)
    with False nt Suc.prems show ?thesis
      unfolding fst_pop_n_Suc by (simp add: stack_pop_def)
  qed
qed

text \<open>
  C4 (stack empty-pop failure). On every stack whose sequence is empty, both \<open>pop\<close>
  overloads throw \<open>empty_stack\<close> as the outcome of the call itself and leave the stack
  (and, for the out-parameter overload, the caller's storage) exactly as it was. \<open>empty\<close>
  on any stack \<open>t\<close> returns a boolean and never throws.
\<close>

theorem stack_pop_empty_throws:
  "stack_data s = [] \<Longrightarrow>
     snd (stack_pop s) = Thrown Empty_stack s
   \<and> snd (stack_pop_ref v s) = Thrown Empty_stack (v, s)
   \<and> snd (stack_empty t) = Returned (stack_data t = []) t"
  by (simp add: stack_pop_def stack_pop_ref_def stack_empty_def)

theorem stack_pop_empty_throws_witness:
  "stack_data (threadsafe_stack_new 0 :: nat threadsafe_stack) = []
   \<and> snd (stack_pop (threadsafe_stack_new 0 :: nat threadsafe_stack))
       = Thrown Empty_stack (threadsafe_stack_new 0)
   \<and> snd (stack_pop_ref (5::nat) (threadsafe_stack_new 0))
       = Thrown Empty_stack (5, threadsafe_stack_new 0)
   \<and> snd (stack_empty (state_after (stack_push (7::nat) (threadsafe_stack_new 1))))
       = Returned False (state_after (stack_push 7 (threadsafe_stack_new 1)))"
  using stack_pop_empty_throws
    [of "threadsafe_stack_new 0 :: nat threadsafe_stack" 5
        "state_after (stack_push (7::nat) (threadsafe_stack_new 1))"]
  by (simp add: threadsafe_stack_new_def stack_push_def)

lemma le_foldr_max: "x \<in> set xs \<Longrightarrow> x \<le> foldr max xs (0::nat)"
  by (induction xs) (auto simp: max_def)

lemma new_mutex_fresh: "new_mutex live \<notin> set live"
proof
  assume "new_mutex live \<in> set live"
  then have "new_mutex live \<le> foldr max live 0" by (rule le_foldr_max)
  then show False by (simp add: new_mutex_def)
qed

text \<open>
  C8 (stack copy construction). Copy-constructing from any stack \<open>other\<close>, whatever other
  mutexes \<open>live\<close> exist, returns a new stack \<open>c\<close> holding the same elements in the same
  order, so that any number of pops gives the same results on the copy as on the source;
  the source is left as it was; the constructor locks and unlocks the source's mutex
  only. The mutex of the copy is not the mutex of the source nor any other live one:
  every operation on the copy locks the copy's mutex and never the source's, and no
  operation on the source, the copy constructor included, locks the copy's mutex.
\<close>

theorem stack_copy_same_elements:
  "\<exists>c. stack_copy live other
         = ([Lock (Stack_mutex (m other)), Unlock (Stack_mutex (m other))], Returned c other)
     \<and> stack_data c = stack_data other
     \<and> fst (pop_n n c) = fst (pop_n n other)
     \<and> m c \<noteq> m other
     \<and> m c \<notin> set live
     \<and> fst (stack_push x c) = [Lock (Stack_mutex (m c)), Unlock (Stack_mutex (m c))]
     \<and> fst (stack_pop c) = [Lock (Stack_mutex (m c)), Unlock (Stack_mutex (m c))]
     \<and> fst (stack_pop_ref v c) = [Lock (Stack_mutex (m c)), Unlock (Stack_mutex (m c))]
     \<and> fst (stack_empty c) = [Lock (Stack_mutex (m c)), Unlock (Stack_mutex (m c))]
     \<and> Lock (Stack_mutex (m other)) \<notin> set (fst (stack_push x c))
     \<and> Lock (Stack_mutex (m other)) \<notin> set (fst (stack_pop c))
     \<and> Lock (Stack_mutex (m other)) \<notin> set (fst (stack_pop_ref v c))
     \<and> Lock (Stack_mutex (m other)) \<notin> set (fst (stack_empty c))
     \<and> Lock (Stack_mutex (m c)) \<notin> set (fst (stack_copy live other))
     \<and> Lock (Stack_mutex (m c)) \<notin> set (fst (stack_push x other))
     \<and> Lock (Stack_mutex (m c)) \<notin> set (fst (stack_pop other))
     \<and> Lock (Stack_mutex (m c)) \<notin> set (fst (stack_pop_ref v other))
     \<and> Lock (Stack_mutex (m c)) \<notin> set (fst (stack_empty other))"
proof -
  let ?mu = "new_mutex (m other # live)"
  let ?c = "\<lparr>stack_data = stack_data other, m = ?mu\<rparr>"
  have fresh: "?mu \<notin> set (m other # live)"
    by (rule new_mutex_fresh)
  then have ne: "m ?c \<noteq> m other" and nl: "m ?c \<notin> set live"
    by auto
  have cp: "stack_copy live other
         = ([Lock (Stack_mutex (m other)), Unlock (Stack_mutex (m other))], Returned ?c other)"
    by (simp add: stack_copy_def threadsafe_stack_new_def)
  have da: "stack_data ?c = stack_data other"
    by simp
  have pn: "fst (pop_n n ?c) = fst (pop_n n other)"
    by (rule pop_n_results_cong) simp
  have e1: "fst (stack_push x ?c) = [Lock (Stack_mutex (m ?c)), Unlock (Stack_mutex (m ?c))]"
    by (simp add: stack_push_def)
  have e2: "fst (stack_pop ?c) = [Lock (Stack_mutex (m ?c)), Unlock (Stack_mutex (m ?c))]"
    by (simp add: stack_pop_def)
  have e3: "fst (stack_pop_ref v ?c) = [Lock (Stack_mutex (m ?c)), Unlock (Stack_mutex (m ?c))]"
    by (simp add: stack_pop_ref_def)
  have e4: "fst (stack_empty ?c) = [Lock (Stack_mutex (m ?c)), Unlock (Stack_mutex (m ?c))]"
    by (simp add: stack_empty_def)
  have o1: "Lock (Stack_mutex (m other)) \<notin> set (fst (stack_push x ?c))"
    unfolding e1 using ne by auto
  have o2: "Lock (Stack_mutex (m other)) \<notin> set (fst (stack_pop ?c))"
    unfolding e2 using ne by auto
  have o3: "Lock (Stack_mutex (m other)) \<notin> set (fst (stack_pop_ref v ?c))"
    unfolding e3 using ne by auto
  have o4: "Lock (Stack_mutex (m other)) \<notin> set (fst (stack_empty ?c))"
    unfolding e4 using ne by auto
  have s0: "Lock (Stack_mutex (m ?c)) \<notin> set (fst (stack_copy live other))"
    unfolding cp using ne by auto
  have s1: "Lock (Stack_mutex (m ?c)) \<notin> set (fst (stack_push x other))"
    using ne by (auto simp: stack_push_def)
  have s2: "Lock (Stack_mutex (m ?c)) \<notin> set (fst (stack_pop other))"
    using ne by (auto simp: stack_pop_def)
  have s3: "Lock (Stack_mutex (m ?c)) \<notin> set (fst (stack_pop_ref v other))"
    using ne by (auto simp: stack_pop_ref_def)
  have s4: "Lock (Stack_mutex (m ?c)) \<notin> set (fst (stack_empty other))"
    using ne by (auto simp: stack_empty_def)
  from cp da pn ne nl e1 e2 e3 e4 o1 o2 o3 o4 s0 s1 s2 s3 s4 show ?thesis
    by (intro exI [of _ ?c] conjI)
qed

text \<open>
  The copy of the stack holding 1, 2, 3 with mutex 4, made while the mutexes 4 and 9 are
  alive, holds 1, 2, 3 and has the mutex 10.
\<close>

theorem stack_copy_same_elements_witness:
  "stack_copy [4, 9] \<lparr>stack_data = [1, 2, 3 :: nat], m = 4\<rparr>
     = ([Lock (Stack_mutex 4), Unlock (Stack_mutex 4)],
        Returned \<lparr>stack_data = [1, 2, 3], m = 10\<rparr> \<lparr>stack_data = [1, 2, 3], m = 4\<rparr>)
   \<and> fst (stack_pop \<lparr>stack_data = [1, 2, 3 :: nat], m = 10\<rparr>)
       = [Lock (Stack_mutex 10), Unlock (Stack_mutex 10)]"
proof -
  from stack_copy_same_elements [of "[4, 9]" "\<lparr>stack_data = [1, 2, 3 :: nat], m = 4\<rparr>" 0 0 0]
  obtain c where
    c: "stack_copy [4, 9] \<lparr>stack_data = [1, 2, 3 :: nat], m = 4\<rparr>
         = ([Lock (Stack_mutex 4), Unlock (Stack_mutex 4)],
            Returned c \<lparr>stack_data = [1, 2, 3], m = 4\<rparr>)"
    and p: "fst (stack_pop c) = [Lock (Stack_mutex (m c)), Unlock (Stack_mutex (m c))]"
    by auto
  have "snd (stack_copy [4, 9] \<lparr>stack_data = [1, 2, 3 :: nat], m = 4\<rparr>)
         = Returned \<lparr>stack_data = [1, 2, 3], m = 10\<rparr> \<lparr>stack_data = [1, 2, 3], m = 4\<rparr>"
    by (simp add: stack_copy_def threadsafe_stack_new_def new_mutex_def)
  with c have "c = \<lparr>stack_data = [1, 2, 3], m = 10\<rparr>" by simp
  with c p show ?thesis by simp
qed


section \<open>Queue: proofs\<close>

lemma lookup_update:
  "lookup (h[a := x]) b = (if b = a then (if a < length h then x else None) else lookup h b)"
  by (simp add: lookup_def)

lemma lookup_snoc: "lookup (h @ [x]) a = (if a = length h then x else lookup h a)"
  by (simp add: lookup_def nth_append)

lemma lookup_Some_less: "lookup h a = Some n \<Longrightarrow> a < length h"
  by (simp add: lookup_def split: if_splits)

lemma destroy_None: "destroy None h = h"
  by (simp add: destroy_def)

lemma destroy_single:
  assumes "lookup h a = Some n" and "nxt n = None"
  shows "destroy (Some a) h = h[a := None]"
proof -
  from assms(1) have "a < length h" by (rule lookup_Some_less)
  then obtain k where "length h = Suc k" by (cases "length h") auto
  with assms show ?thesis by (simp add: destroy_def)
qed

lemma chain_less: "chain h p as \<Longrightarrow> a \<in> set as \<Longrightarrow> a < length h"
proof (induction as arbitrary: p)
  case Nil
  then show ?case by simp
next
  case (Cons b bs)
  then show ?case
    by (auto split: option.splits dest: lookup_Some_less)
qed

lemma chain_cong:
  "(\<And>a. a \<in> set as \<Longrightarrow> lookup h' a = lookup h a) \<Longrightarrow> chain h' p as = chain h p as"
  by (induction as arbitrary: p) (auto split: option.splits)

lemma chain_last:
  "chain h p (as @ [t]) \<Longrightarrow> \<exists>n. lookup h t = Some n \<and> nxt n = None"
  by (induction as arbitrary: p) (auto split: option.splits)

lemma chain_link:
  assumes "chain h p (as @ [t])"
    and "\<And>a. a \<in> set as \<Longrightarrow> lookup h' a = lookup h a"
    and "lookup h' t = Some n'" and "nxt n' = Some b"
    and "lookup h' b = Some nb" and "nxt nb = None"
  shows "chain h' p (as @ [t, b])"
  using assms(1,2)
proof (induction as arbitrary: p)
  case Nil
  with assms(3-6) show ?case by simp
next
  case (Cons a as)
  then show ?case by (auto split: option.splits)
qed

lemma payload_cong:
  "(\<And>a. a \<in> set as \<Longrightarrow> lookup h' a = lookup h a) \<Longrightarrow> map (payload h') as = map (payload h) as"
  by (simp add: payload_def)

lemma queue_abs_new: "queue_abs threadsafe_queue_new [0] []"
  by (simp add: queue_abs_def threadsafe_queue_new_def payload_def lookup_def)

text \<open>In a well-formed queue the head pointer is the first node of the chain.\<close>

lemma queue_abs_head: "queue_abs q as xs \<Longrightarrow> head q = Some (hd as)"
  by (cases as) (simp_all add: queue_abs_def)

lemma queue_abs_length: "queue_abs q as xs \<Longrightarrow> length as = Suc (length xs)"
proof -
  assume "queue_abs q as xs"
  then have "map (payload (nodes q)) as = map Some xs @ [None]"
    by (simp add: queue_abs_def)
  then have "length (map (payload (nodes q)) as) = length (map Some xs @ [None])"
    by (rule arg_cong)
  then show ?thesis by simp
qed

lemma queue_abs_empty_iff:
  assumes "queue_abs q as xs"
  shows "(xs = []) = (head q = Some (tail q))"
proof -
  obtain a bs where as: "as = a # bs"
    using assms by (cases as) (auto simp: queue_abs_def)
  have h: "head q = Some a"
    using queue_abs_head [OF assms] as by simp
  have d: "a \<notin> set bs" and l: "last (a # bs) = tail q"
    using assms as by (auto simp: queue_abs_def)
  have n: "length bs = length xs"
    using queue_abs_length [OF assms] as by simp
  show ?thesis
  proof (cases bs)
    case Nil
    with h l n show ?thesis by simp
  next
    case (Cons b cs)
    then have "last (a # bs) \<in> set bs" by simp
    with d have "last (a # bs) \<noteq> a" by metis
    with h l n Cons show ?thesis by auto
  qed
qed

text \<open>What \<open>push\<close> does to a well-formed queue.\<close>

lemma push_abs:
  fixes q :: "'a threadsafe_queue" and v :: 'a
  assumes "queue_abs q as xs"
  defines "p \<equiv> length (nodes q)"
  defines "q' \<equiv> q\<lparr>tail := p,
                   nodes := (nodes q @ [Some \<lparr>data = None, nxt = None\<rparr>])
                              [tail q := Some \<lparr>data = Some v, nxt = Some p\<rparr>]\<rparr>"
  shows "push v q = ([Lock Tail_mutex, Unlock Tail_mutex, Notify_one], Returns () q')"
    and "queue_abs q' (as @ [p]) (xs @ [v])"
    and "lookup (nodes q) (tail q) = Some \<lparr>data = None, nxt = None\<rparr>"
proof -
  let ?h = "nodes q"
  let ?t = "tail q"
  obtain bs where as: "as = bs @ [?t]"
    using assms(1) by (cases as rule: rev_cases) (auto simp: queue_abs_def)
  have ch: "chain ?h (head q) (bs @ [?t])" and di: "?t \<notin> set bs" "distinct bs"
    and pl: "map (payload ?h) (bs @ [?t]) = map Some xs @ [None]"
    using assms(1) as by (auto simp: queue_abs_def)
  from chain_last [OF ch] obtain n where n: "lookup ?h ?t = Some n" "nxt n = None"
    by blast
  from pl have pt: "payload ?h ?t = None" and pb: "map (payload ?h) bs = map Some xs"
    by simp_all
  from pt n have "data n = None" by (simp add: payload_def)
  with n have n_eq: "n = \<lparr>data = None, nxt = None\<rparr>" by simp
  from n(1) have t_less: "?t < length ?h" by (rule lookup_Some_less)
  show old: "lookup ?h ?t = Some \<lparr>data = None, nxt = None\<rparr>"
    using n(1) n_eq by simp
  have l1: "lookup (?h @ [Some \<lparr>data = None, nxt = None\<rparr>]) ?t = Some \<lparr>data = None, nxt = None\<rparr>"
    using old t_less by (simp add: lookup_snoc)
  show "push v q = ([Lock Tail_mutex, Unlock Tail_mutex, Notify_one], Returns () q')"
    using l1 by (simp add: push_def new_node_def destroy_None q'_def p_def)
  let ?h' = "nodes q'"
  have h': "?h' = (?h @ [Some \<lparr>data = None, nxt = None\<rparr>])[?t := Some \<lparr>data = Some v, nxt = Some p\<rparr>]"
    by (simp add: q'_def)
  have bs_less: "a < length ?h" if "a \<in> set bs" for a
    using chain_less [OF ch, of a] that by simp
  have keep: "lookup ?h' a = lookup ?h a" if "a \<in> set bs" for a
    using that bs_less [OF that] di(1) by (auto simp: h' lookup_update lookup_snoc)
  have lt: "lookup ?h' ?t = Some \<lparr>data = Some v, nxt = Some p\<rparr>"
    using t_less by (simp add: h' lookup_update)
  have lp: "lookup ?h' p = Some \<lparr>data = None, nxt = None\<rparr>"
    using t_less by (simp add: h' lookup_update lookup_snoc p_def)
  have c': "chain ?h' (head q) (bs @ [?t, p])"
    by (rule chain_link [OF ch keep lt _ lp]) simp_all
  have p_new: "p \<notin> set bs" "p \<noteq> ?t"
    using bs_less t_less by (auto simp: p_def)
  have pl': "map (payload ?h') (bs @ [?t, p]) = map Some (xs @ [v]) @ [None]"
    using payload_cong [of bs ?h' ?h, OF keep] pb lt lp by (simp add: payload_def)
  show "queue_abs q' (as @ [p]) (xs @ [v])"
    unfolding queue_abs_def using c' pl' p_new di as by (simp add: q'_def)
qed

text \<open>The wait ends at once, with no suspension, when the head is not the tail.\<close>

lemma data_cond_wait_ready:
  "head q \<noteq> Some (tail q) \<Longrightarrow>
     data_cond_wait env q = ([Lock Tail_mutex, Unlock Tail_mutex], Returns () q)"
  by (cases env) (simp_all add: get_tail_def)

lemma wait_for_data_ready:
  "head q \<noteq> Some (tail q) \<Longrightarrow>
     wait_for_data env q = ([Lock Head_mutex, Lock Tail_mutex, Unlock Tail_mutex], Returns () q)"
  by (simp add: wait_for_data_def data_cond_wait_ready)

text \<open>When the wait ends, the head is not the tail in the state it ends in.\<close>

lemma data_cond_wait_returns:
  "data_cond_wait env q = (es, Returns u q1) \<Longrightarrow> head q1 \<noteq> Some (tail q1)"
proof (induction env arbitrary: q es)
  case Nil
  then show ?case by (auto simp: get_tail_def split: if_splits)
next
  case (Cons woken env)
  show ?case
  proof (cases "head q \<noteq> Some (tail q)")
    case True
    with Cons.prems show ?thesis by (auto simp: get_tail_def)
  next
    case False
    with Cons.prems obtain es' where "data_cond_wait env woken = (es', Returns u q1)"
      by (auto simp: get_tail_def split: prod.splits)
    then show ?thesis by (rule Cons.IH)
  qed
qed

text \<open>What the four pop operations do to a well-formed queue whose head is not its tail.\<close>

lemma pop_abs:
  assumes "queue_abs q as xs" and "head q \<noteq> Some (tail q)"
  shows "\<exists>a b cs x ys. as = a # b # cs \<and> xs = x # ys
           \<and> try_pop q
               = ([Lock Head_mutex, Lock Tail_mutex, Unlock Tail_mutex, Unlock Head_mutex],
                  Returns (Some x) (q\<lparr>head := Some b, nodes := (nodes q)[a := None]\<rparr>))
           \<and> try_pop_ref v q
               = ([Lock Head_mutex, Lock Tail_mutex, Unlock Tail_mutex, Unlock Head_mutex],
                  Returns True (x, q\<lparr>head := Some b, nodes := (nodes q)[a := None]\<rparr>))
           \<and> wait_and_pop env q
               = ([Lock Head_mutex, Lock Tail_mutex, Unlock Tail_mutex, Unlock Head_mutex],
                  Returns (Some x) (q\<lparr>head := Some b, nodes := (nodes q)[a := None]\<rparr>))
           \<and> wait_and_pop_ref env v q
               = ([Lock Head_mutex, Lock Tail_mutex, Unlock Tail_mutex, Unlock Head_mutex],
                  Returns () (x, q\<lparr>head := Some b, nodes := (nodes q)[a := None]\<rparr>))
           \<and> queue_abs (q\<lparr>head := Some b, nodes := (nodes q)[a := None]\<rparr>) (b # cs) ys"
proof -
  let ?h = "nodes q"
  have ne: "xs \<noteq> []"
    using queue_abs_empty_iff [OF assms(1)] assms(2) by simp
  then obtain x ys where xs: "xs = x # ys" by (cases xs) auto
  from queue_abs_length [OF assms(1)] xs obtain a b cs where as: "as = a # b # cs"
    by (cases as; cases "tl as") auto
  have ch: "chain ?h (head q) (a # b # cs)" and di: "a \<noteq> b" "a \<notin> set cs" "distinct (b # cs)"
    and la: "last (b # cs) = tail q"
    and pl: "map (payload ?h) (a # b # cs) = map Some (x # ys) @ [None]"
    using assms(1) as xs by (auto simp: queue_abs_def)
  from ch obtain n where hd: "head q = Some a" and n: "lookup ?h a = Some n"
    and nb: "nxt n = Some b" and ch': "chain ?h (Some b) (b # cs)"
    by (auto split: option.splits)
  from pl n have dn: "data n = Some x" and pl': "map (payload ?h) (b # cs) = map Some ys @ [None]"
    by (simp_all add: payload_def)
  from n have a_less: "a < length ?h" by (rule lookup_Some_less)
  let ?q1 = "q\<lparr>head := Some b, nodes := ?h[a := Some (n\<lparr>nxt := None\<rparr>)]\<rparr>"
  let ?q' = "q\<lparr>head := Some b, nodes := ?h[a := None]\<rparr>"
  have ph: "pop_head q = Returns a ?q1"
    using hd n nb by (simp add: pop_head_def)
  have l1: "lookup (nodes ?q1) a = Some (n\<lparr>nxt := None\<rparr>)"
    using a_less by (simp add: lookup_update)
  have de: "destroy (Some a) (nodes ?q1) = ?h[a := None]"
    using destroy_single [OF l1] by simp
  have dd: "deref_head_data q = Some x"
    using hd n dn by (simp add: deref_head_data_def)
  have 1: "try_pop q
      = ([Lock Head_mutex, Lock Tail_mutex, Unlock Tail_mutex, Unlock Head_mutex],
         Returns (Some x) ?q')"
    using assms(2) ph l1 de dn by (simp add: try_pop_def try_pop_head_def get_tail_def)
  have 2: "try_pop_ref v q
      = ([Lock Head_mutex, Lock Tail_mutex, Unlock Tail_mutex, Unlock Head_mutex],
         Returns True (x, ?q'))"
    using assms(2) ph de dd by (simp add: try_pop_ref_def try_pop_head_ref_def get_tail_def)
  have 3: "wait_and_pop env q
      = ([Lock Head_mutex, Lock Tail_mutex, Unlock Tail_mutex, Unlock Head_mutex],
         Returns (Some x) ?q')"
    using ph l1 de dn
    by (simp add: wait_and_pop_def wait_pop_head_def wait_for_data_ready [OF assms(2)])
  have 4: "wait_and_pop_ref env v q
      = ([Lock Head_mutex, Lock Tail_mutex, Unlock Tail_mutex, Unlock Head_mutex],
         Returns () (x, ?q'))"
    using ph de dd
    by (simp add: wait_and_pop_ref_def wait_pop_head_ref_def wait_for_data_ready [OF assms(2)])
  have keep: "lookup (?h[a := None]) c = lookup ?h c" if "c \<in> set (b # cs)" for c
    using that di by (auto simp: lookup_update)
  have c2: "chain (?h[a := None]) (Some b) (b # cs)"
    using chain_cong [of "b # cs" "?h[a := None]" ?h "Some b", OF keep] ch' by simp
  have "map (payload (?h[a := None])) (b # cs) = map (payload ?h) (b # cs)"
    by (rule payload_cong) (rule keep)
  with pl' have p2: "map (payload (?h[a := None])) (b # cs) = map Some ys @ [None]"
    by (simp only:)
  have 5: "queue_abs ?q' (b # cs) ys"
    unfolding queue_abs_def using c2 p2 di la by simp
  from as xs 1 2 3 4 5 show ?thesis by blast
qed

text \<open>What the two non-blocking pops do when the head is the tail.\<close>

lemma try_pop_at_tail:
  assumes "head q = Some (tail q)"
  shows "try_pop q
           = ([Lock Head_mutex, Lock Tail_mutex, Unlock Tail_mutex, Unlock Head_mutex],
              Returns None q)"
    and "try_pop_ref v q
           = ([Lock Head_mutex, Lock Tail_mutex, Unlock Tail_mutex, Unlock Head_mutex],
              Returns False (v, q))"
  using assms
  by (simp_all add: try_pop_def try_pop_head_def try_pop_ref_def try_pop_head_ref_def
      get_tail_def destroy_None)

text \<open>
  The two blocking pops never return when the head is the tail and every wake-up finds
  the queue unchanged.
\<close>

lemma data_cond_wait_spurious:
  "head q = Some (tail q) \<Longrightarrow> \<exists>es. data_cond_wait (replicate n q) q = (es, Blocks q)"
proof (induction n)
  case 0
  then show ?case by (simp add: get_tail_def)
next
  case (Suc n)
  then obtain es where "data_cond_wait (replicate n q) q = (es, Blocks q)" by blast
  with Suc.prems show ?case by (simp add: get_tail_def)
qed

lemma wait_and_pop_at_tail:
  assumes "head q = Some (tail q)"
  shows "\<exists>es. wait_and_pop (replicate n q) q = (es, Blocks q)"
    and "\<exists>es. wait_and_pop_ref (replicate n q) v q = (es, Blocks (v, q))"
proof -
  from data_cond_wait_spurious [OF assms, of n] obtain es
    where "data_cond_wait (replicate n q) q = (es, Blocks q)" by blast
  then show "\<exists>es. wait_and_pop (replicate n q) q = (es, Blocks q)"
    and "\<exists>es. wait_and_pop_ref (replicate n q) v q = (es, Blocks (v, q))"
    by (simp_all add: wait_and_pop_def wait_pop_head_def wait_and_pop_ref_def
        wait_pop_head_ref_def wait_for_data_def)
qed

text \<open>Every reachable state is well-formed, and stores exactly the pending values.\<close>

lemma queue_reach_abs: "queue_reach q xs \<Longrightarrow> \<exists>as. queue_abs q as xs"
proof (induction rule: queue_reach.induct)
  case reach_new
  show ?case using queue_abs_new by blast
next
  case (reach_push q xs v u q')
  then obtain as where a: "queue_abs q as xs" by blast
  from push_abs(1) [OF a, of v] reach_push.hyps(2) push_abs(2) [OF a, of v]
  show ?case by auto
next
  case (reach_try_pop q xs r q')
  then obtain as where a: "queue_abs q as xs" by blast
  show ?case
  proof (cases "head q = Some (tail q)")
    case True
    from try_pop_at_tail(1) [OF True] reach_try_pop.hyps(2) a show ?thesis by auto
  next
    case False
    from pop_abs [OF a False, where v = "hd xs" and env = "[]"] reach_try_pop.hyps(2)
    show ?thesis by auto
  qed
next
  case (reach_try_pop_ref q xs v b v' q')
  then obtain as where a: "queue_abs q as xs" by blast
  show ?case
  proof (cases "head q = Some (tail q)")
    case True
    from try_pop_at_tail(2) [OF True, of v] reach_try_pop_ref.hyps(2) a show ?thesis by auto
  next
    case False
    from pop_abs [OF a False, where v = v and env = "[]"] reach_try_pop_ref.hyps(2)
    show ?thesis by auto
  qed
next
  case (reach_wait_and_pop q xs n r q')
  then obtain as where a: "queue_abs q as xs" by blast
  show ?case
  proof (cases "head q = Some (tail q)")
    case True
    from wait_and_pop_at_tail(1) [OF True, of n] reach_wait_and_pop.hyps(2)
    show ?thesis by auto
  next
    case False
    from pop_abs [OF a False, where v = "hd xs" and env = "replicate n q"]
      reach_wait_and_pop.hyps(2)
    show ?thesis by auto
  qed
next
  case (reach_wait_and_pop_ref q xs n v u v' q')
  then obtain as where a: "queue_abs q as xs" by blast
  show ?case
  proof (cases "head q = Some (tail q)")
    case True
    from wait_and_pop_at_tail(2) [OF True, of n v] reach_wait_and_pop_ref.hyps(2)
    show ?thesis by auto
  next
    case False
    from pop_abs [OF a False, where v = v and env = "replicate n q"]
      reach_wait_and_pop_ref.hyps(2)
    show ?thesis by auto
  qed
next
  case (reach_empty q xs b q')
  then show ?case by (simp add: queue_empty_def get_tail_def)
qed

section \<open>Queue: the claims\<close>

text \<open>
  C1 (queue FIFO law). Starting from the freshly constructed queue, \<open>push(1); push(2);
  push(3)\<close> all return, the next three \<open>try_pop\<close> calls return 1, 2, 3 in this order and
  a fourth returns the empty outcome: the null pointer for the value-returning overload,
  \<open>false\<close> (with the storage still holding 3) for the out-parameter overload.
\<close>

theorem queue_fifo_123:
  "\<exists>q1 q2 q3 q4 q5 q6 r4 r5 r6.
      snd (push (1::int) threadsafe_queue_new) = Returns () q1
    \<and> snd (push 2 q1) = Returns () q2
    \<and> snd (push 3 q2) = Returns () q3
    \<and> snd (try_pop q3) = Returns (Some 1) q4
    \<and> snd (try_pop q4) = Returns (Some 2) q5
    \<and> snd (try_pop q5) = Returns (Some 3) q6
    \<and> snd (try_pop q6) = Returns None q6
    \<and> snd (try_pop_ref v q3) = Returns True (1, r4)
    \<and> snd (try_pop_ref 1 r4) = Returns True (2, r5)
    \<and> snd (try_pop_ref 2 r5) = Returns True (3, r6)
    \<and> snd (try_pop_ref 3 r6) = Returns False (3, r6)"
  by (simp add: threadsafe_queue_new_def push_def new_node_def lookup_def destroy_def
      try_pop_def try_pop_head_def try_pop_ref_def try_pop_head_ref_def get_tail_def
      pop_head_def deref_head_data_def)

text \<open>
  C3 (dummy-node invariant). In every state reached from the constructor by calls of
  \<open>push\<close>, \<open>try_pop\<close>, \<open>wait_and_pop\<close> (and \<open>empty\<close>) that returned, with \<open>xs\<close> the
  values pushed and not yet popped: the chain owned through \<open>head\<close> has at least one
  node, namely one more than there are pending values, its last node is the one \<open>tail\<close>
  points to; and no value is pending exactly when \<open>head\<close> and \<open>tail\<close> are the same
  node, which is also what \<open>empty\<close> returns.
\<close>

theorem dummy_node_invariant:
  "queue_reach q xs \<Longrightarrow>
     \<exists>as. chain (nodes q) (head q) as \<and> as \<noteq> [] \<and> last as = tail q
        \<and> length as = Suc (length xs)
        \<and> map (payload (nodes q)) as = map Some xs @ [None]
        \<and> (xs = []) = (head q = Some (tail q))
        \<and> snd (queue_empty q) = Returns (xs = []) q"
proof -
  assume "queue_reach q xs"
  then obtain as where a: "queue_abs q as xs"
    using queue_reach_abs by blast
  have e: "(xs = []) = (head q = Some (tail q))"
    by (rule queue_abs_empty_iff [OF a])
  have "snd (queue_empty q) = Returns (head q = Some (tail q)) q"
    by (simp add: queue_empty_def get_tail_def)
  with e have "snd (queue_empty q) = Returns (xs = []) q" by simp
  with a e queue_abs_length [OF a] show ?thesis
    unfolding queue_abs_def by blast
qed

theorem dummy_node_invariant_witness:
  "queue_reach
     \<lparr>head = Some 0, tail = 1,
      nodes = [Some \<lparr>data = Some (7::nat), nxt = Some 1\<rparr>, Some \<lparr>data = None, nxt = None\<rparr>]\<rparr>
     [7]
   \<and> (\<exists>as. chain [Some \<lparr>data = Some (7::nat), nxt = Some 1\<rparr>, Some \<lparr>data = None, nxt = None\<rparr>]
              (Some 0) as
          \<and> as \<noteq> [] \<and> last as = 1 \<and> length as = 2)"
proof -
  let ?q = "\<lparr>head = Some 0, tail = 1,
      nodes = [Some \<lparr>data = Some (7::nat), nxt = Some 1\<rparr>, Some \<lparr>data = None, nxt = None\<rparr>]\<rparr>"
  have "snd (push 7 threadsafe_queue_new) = Returns () ?q"
    by (simp add: threadsafe_queue_new_def push_def new_node_def lookup_def destroy_def)
  from reach_push [OF reach_new this] have r: "queue_reach ?q [7]" by simp
  from dummy_node_invariant [OF r] r show ?thesis by auto
qed

text \<open>
  C5 (queue push algorithm). In every state in which \<open>tail\<close> points to a live node \<open>t\<close>
  that owns no successor (as in every well-formed, hence every reachable state), and for
  every value \<open>v\<close>, \<open>push v\<close> returns; the node that was the tail now holds \<open>v\<close> and is
  linked to one newly allocated node with null payload and null successor; \<open>tail\<close> now
  points to that new node; no other node and not \<open>head\<close> is changed. The events are:
  lock the tail mutex, unlock it, and only then signal the condition variable. If the
  queue was well-formed with pending values \<open>xs\<close>, it is well-formed afterwards with
  pending values \<open>xs @ [v]\<close>: the new tail has a null payload and every node before it
  carries a payload.
\<close>

theorem push_appends_at_tail:
  "lookup (nodes q) (tail q) = Some t \<Longrightarrow> nxt t = None \<Longrightarrow>
     \<exists>q'. push v q = ([Lock Tail_mutex, Unlock Tail_mutex, Notify_one], Returns () q')
        \<and> lookup (nodes q') (tail q) = Some (t\<lparr>data := Some v, nxt := Some (tail q')\<rparr>)
        \<and> lookup (nodes q) (tail q') = None
        \<and> lookup (nodes q') (tail q') = Some \<lparr>data = None, nxt = None\<rparr>
        \<and> length (nodes q') = Suc (length (nodes q))
        \<and> (\<forall>a. a \<noteq> tail q \<longrightarrow> a \<noteq> tail q' \<longrightarrow> lookup (nodes q') a = lookup (nodes q) a)
        \<and> head q' = head q
        \<and> (queue_abs q as xs \<longrightarrow>
              data t = None
            \<and> queue_abs q' (as @ [tail q']) (xs @ [v])
            \<and> map (payload (nodes q')) (as @ [tail q']) = map Some (xs @ [v]) @ [None])"
proof -
  assume t: "lookup (nodes q) (tail q) = Some t" and n: "nxt t = None"
  let ?p = "length (nodes q)"
  let ?q' = "q\<lparr>tail := ?p,
                nodes := (nodes q @ [Some \<lparr>data = None, nxt = None\<rparr>])
                           [tail q := Some (t\<lparr>data := Some v, nxt := Some ?p\<rparr>)]\<rparr>"
  from t have t_less: "tail q < ?p" by (rule lookup_Some_less)
  have l: "lookup (nodes q @ [Some \<lparr>data = None, nxt = None\<rparr>]) (tail q) = Some t"
    using t t_less by (simp add: lookup_snoc)
  have 0: "push v q = ([Lock Tail_mutex, Unlock Tail_mutex, Notify_one], Returns () ?q')"
    using l n by (simp add: push_def new_node_def destroy_None)
  have 1: "lookup (nodes ?q') (tail q) = Some (t\<lparr>data := Some v, nxt := Some (tail ?q')\<rparr>)"
    using t_less by (simp add: lookup_update)
  have 2: "lookup (nodes q) (tail ?q') = None"
    by (simp add: lookup_def)
  have 3: "lookup (nodes ?q') (tail ?q') = Some \<lparr>data = None, nxt = None\<rparr>"
    using t_less by (simp add: lookup_update lookup_snoc)
  have 4: "length (nodes ?q') = Suc (length (nodes q))"
    by simp
  have 5: "\<forall>a. a \<noteq> tail q \<longrightarrow> a \<noteq> tail ?q' \<longrightarrow> lookup (nodes ?q') a = lookup (nodes q) a"
    by (simp add: lookup_update lookup_snoc)
  have 6: "head ?q' = head q"
    by simp
  have 7: "data t = None
            \<and> queue_abs ?q' (as @ [tail ?q']) (xs @ [v])
            \<and> map (payload (nodes ?q')) (as @ [tail ?q']) = map Some (xs @ [v]) @ [None]"
    if a: "queue_abs q as xs"
  proof -
    from push_abs(3) [OF a] t have e: "t = \<lparr>data = None, nxt = None\<rparr>" by simp
    from push_abs(2) [OF a, of v] have w: "queue_abs ?q' (as @ [tail ?q']) (xs @ [v])"
      by (simp add: e)
    then have "map (payload (nodes ?q')) (as @ [tail ?q']) = map Some (xs @ [v]) @ [None]"
      unfolding queue_abs_def by blast
    with e w show ?thesis by simp
  qed
  then have 8: "queue_abs q as xs \<longrightarrow>
              data t = None
            \<and> queue_abs ?q' (as @ [tail ?q']) (xs @ [v])
            \<and> map (payload (nodes ?q')) (as @ [tail ?q']) = map Some (xs @ [v]) @ [None]"
    by blast
  from 0 1 2 3 4 5 6 8 show ?thesis
    by (intro exI [of _ ?q'] conjI)
qed

theorem push_appends_at_tail_witness:
  "lookup (nodes (threadsafe_queue_new :: nat threadsafe_queue))
       (tail (threadsafe_queue_new :: nat threadsafe_queue))
     = Some \<lparr>data = None, nxt = None\<rparr>
   \<and> nxt \<lparr>data = None :: nat option, nxt = None\<rparr> = None
   \<and> queue_abs (threadsafe_queue_new :: nat threadsafe_queue) [0] []
   \<and> push (7::nat) threadsafe_queue_new
       = ([Lock Tail_mutex, Unlock Tail_mutex, Notify_one],
          Returns ()
            \<lparr>head = Some 0, tail = 1,
             nodes = [Some \<lparr>data = Some 7, nxt = Some 1\<rparr>, Some \<lparr>data = None, nxt = None\<rparr>]\<rparr>)
   \<and> queue_abs
        \<lparr>head = Some 0, tail = 1,
         nodes = [Some \<lparr>data = Some (7::nat), nxt = Some 1\<rparr>, Some \<lparr>data = None, nxt = None\<rparr>]\<rparr>
        [0, 1] [7]"
proof -
  let ?q = "threadsafe_queue_new :: nat threadsafe_queue"
  let ?q' = "\<lparr>head = Some 0, tail = 1,
      nodes = [Some \<lparr>data = Some (7::nat), nxt = Some 1\<rparr>, Some \<lparr>data = None, nxt = None\<rparr>]\<rparr>"
  have t: "lookup (nodes ?q) (tail ?q) = Some \<lparr>data = None, nxt = None\<rparr>"
    by (simp add: threadsafe_queue_new_def lookup_def)
  have n: "nxt \<lparr>data = None :: nat option, nxt = None\<rparr> = None"
    by simp
  have a: "queue_abs ?q [0] []"
    by (simp add: queue_abs_def threadsafe_queue_new_def payload_def lookup_def)
  have p: "snd (push 7 ?q) = Returns () ?q'"
    by (simp add: threadsafe_queue_new_def push_def new_node_def lookup_def destroy_def)
  from push_appends_at_tail [OF t n, of 7 "[0]" "[]"] obtain q' where
    e: "push 7 ?q = ([Lock Tail_mutex, Unlock Tail_mutex, Notify_one], Returns () q')"
    and w: "queue_abs ?q [0] [] \<longrightarrow> queue_abs q' ([0] @ [tail q']) ([] @ [7])"
    by blast
  from e p have q': "q' = ?q'" by simp
  from w a q' have "queue_abs ?q' [0, 1] [7]" by simp
  with t n a e q' show ?thesis by simp
qed

text \<open>
  C6 (blocking and non-blocking pop agree on a non-empty queue). Whenever \<open>head\<close> is
  not the node \<open>tail\<close> points to, \<open>wait_and_pop\<close> has the same events, the same result
  and the same final state as \<open>try_pop\<close>, whatever wake-ups \<open>env\<close> might have followed;
  the out-parameter overloads agree likewise, \<open>try_pop\<close> returning \<open>true\<close> where
  \<open>wait_and_pop\<close> returns nothing; and \<open>wait_pop_head\<close> removes the same node, leaving
  the same state, as \<open>try_pop_head\<close>. On a well-formed queue all four calls return: the
  value is the front value, and the state left is the queue without its first node.
  And for a call on any queue \<open>q0\<close> that had to wait: once the wait ends, in a state
  \<open>q1\<close>, the head is not the tail there, and the result and final state of \<open>wait_and_pop\<close>
  are those of \<open>try_pop\<close> on \<open>q1\<close>.
\<close>

theorem wait_and_pop_agrees_with_try_pop:
  "head q \<noteq> Some (tail q) \<Longrightarrow>
     wait_and_pop env q = try_pop q
   \<and> try_pop_ref v q =
       (case wait_and_pop_ref env v q of
          (es, Returns u s) \<Rightarrow> (es, Returns True s)
        | (es, Blocks s) \<Rightarrow> (es, Blocks s)
        | (es, Undefined) \<Rightarrow> (es, Undefined))
   \<and> try_pop_head q =
       (case wait_pop_head env q of
          (es, Returns old_head s) \<Rightarrow> (es, Returns (Some old_head) s)
        | (es, Blocks s) \<Rightarrow> (es, Blocks s)
        | (es, Undefined) \<Rightarrow> (es, Undefined))
   \<and> try_pop_head_ref v q =
       (case wait_pop_head_ref env v q of
          (es, Returns old_head s) \<Rightarrow> (es, Returns (Some old_head) s)
        | (es, Blocks s) \<Rightarrow> (es, Blocks s)
        | (es, Undefined) \<Rightarrow> (es, Undefined))
   \<and> (queue_abs q as xs \<longrightarrow>
        (\<exists>q'. wait_and_pop env q
                = ([Lock Head_mutex, Lock Tail_mutex, Unlock Tail_mutex, Unlock Head_mutex],
                   Returns (Some (hd xs)) q')
            \<and> try_pop q
                = ([Lock Head_mutex, Lock Tail_mutex, Unlock Tail_mutex, Unlock Head_mutex],
                   Returns (Some (hd xs)) q')
            \<and> wait_and_pop_ref env v q
                = ([Lock Head_mutex, Lock Tail_mutex, Unlock Tail_mutex, Unlock Head_mutex],
                   Returns () (hd xs, q'))
            \<and> try_pop_ref v q
                = ([Lock Head_mutex, Lock Tail_mutex, Unlock Tail_mutex, Unlock Head_mutex],
                   Returns True (hd xs, q'))
            \<and> xs \<noteq> [] \<and> queue_abs q' (tl as) (tl xs)))
   \<and> (snd (wait_for_data env0 q0) = Returns u0 q1 \<longrightarrow>
          head q1 \<noteq> Some (tail q1)
        \<and> snd (wait_and_pop env0 q0) = snd (try_pop q1)
        \<and> snd (try_pop_ref v q1) =
            (case snd (wait_and_pop_ref env0 v q0) of
               Returns u s \<Rightarrow> Returns True s
             | Blocks s \<Rightarrow> Blocks s
             | Undefined \<Rightarrow> Undefined))"
proof -
  assume ne: "head q \<noteq> Some (tail q)"
  note w = wait_for_data_ready [OF ne, of env]
  have h1: "try_pop_head q =
       (case wait_pop_head env q of
          (es, Returns old_head s) \<Rightarrow> (es, Returns (Some old_head) s)
        | (es, Blocks s) \<Rightarrow> (es, Blocks s)
        | (es, Undefined) \<Rightarrow> (es, Undefined))"
    using ne
    by (simp add: try_pop_head_def wait_pop_head_def w get_tail_def split: outcome.splits)
  have h2: "try_pop_head_ref v q =
       (case wait_pop_head_ref env v q of
          (es, Returns old_head s) \<Rightarrow> (es, Returns (Some old_head) s)
        | (es, Blocks s) \<Rightarrow> (es, Blocks s)
        | (es, Undefined) \<Rightarrow> (es, Undefined))"
    using ne
    by (simp add: try_pop_head_ref_def wait_pop_head_ref_def w get_tail_def
        split: outcome.splits option.splits)
  have 1: "wait_and_pop env q = try_pop q"
    unfolding try_pop_def h1
    by (simp add: wait_and_pop_def split: prod.splits outcome.splits)
  have 2: "try_pop_ref v q =
       (case wait_and_pop_ref env v q of
          (es, Returns u s) \<Rightarrow> (es, Returns True s)
        | (es, Blocks s) \<Rightarrow> (es, Blocks s)
        | (es, Undefined) \<Rightarrow> (es, Undefined))"
    unfolding try_pop_ref_def h2
    by (simp add: wait_and_pop_ref_def split: prod.splits outcome.splits)
  have 3: "\<exists>q'. wait_and_pop env q
                = ([Lock Head_mutex, Lock Tail_mutex, Unlock Tail_mutex, Unlock Head_mutex],
                   Returns (Some (hd xs)) q')
            \<and> try_pop q
                = ([Lock Head_mutex, Lock Tail_mutex, Unlock Tail_mutex, Unlock Head_mutex],
                   Returns (Some (hd xs)) q')
            \<and> wait_and_pop_ref env v q
                = ([Lock Head_mutex, Lock Tail_mutex, Unlock Tail_mutex, Unlock Head_mutex],
                   Returns () (hd xs, q'))
            \<and> try_pop_ref v q
                = ([Lock Head_mutex, Lock Tail_mutex, Unlock Tail_mutex, Unlock Head_mutex],
                   Returns True (hd xs, q'))
            \<and> xs \<noteq> [] \<and> queue_abs q' (tl as) (tl xs)"
    if a: "queue_abs q as xs"
    using pop_abs [OF a ne, of v env] by auto
  have 4: "head q1 \<noteq> Some (tail q1)
        \<and> snd (wait_and_pop env0 q0) = snd (try_pop q1)
        \<and> snd (try_pop_ref v q1) =
            (case snd (wait_and_pop_ref env0 v q0) of
               Returns u s \<Rightarrow> Returns True s
             | Blocks s \<Rightarrow> Blocks s
             | Undefined \<Rightarrow> Undefined)"
    if r: "snd (wait_for_data env0 q0) = Returns u0 q1"
  proof -
    from r obtain es where d: "data_cond_wait env0 q0 = (es, Returns u0 q1)"
      by (auto simp: wait_for_data_def split: prod.splits)
    then have n1: "head q1 \<noteq> Some (tail q1)"
      by (rule data_cond_wait_returns)
    from d have wd: "wait_for_data env0 q0 = ([Lock Head_mutex] @ es, Returns u0 q1)"
      by (simp add: wait_for_data_def)
    have a: "snd (wait_and_pop env0 q0) = snd (try_pop q1)"
      using n1
      by (simp add: wait_and_pop_def wait_pop_head_def wd try_pop_def try_pop_head_def
          get_tail_def split: outcome.splits option.splits)
    have b: "snd (try_pop_ref v q1) =
            (case snd (wait_and_pop_ref env0 v q0) of
               Returns u s \<Rightarrow> Returns True s
             | Blocks s \<Rightarrow> Blocks s
             | Undefined \<Rightarrow> Undefined)"
      using n1
      by (simp add: wait_and_pop_ref_def wait_pop_head_ref_def wd try_pop_ref_def
          try_pop_head_ref_def get_tail_def split: outcome.splits option.splits)
    from n1 a b show ?thesis by blast
  qed
  from 1 2 h1 h2 3 4 show ?thesis by blast
qed

text \<open>
  At the queue holding 7 the two calls agree and return 7. A \<open>wait_and_pop\<close> on the
  empty queue that is woken once, finding the queue holding 7, returns 7 as well.
\<close>

theorem wait_and_pop_agrees_with_try_pop_witness:
  "head \<lparr>head = Some 0, tail = 1,
      nodes = [Some \<lparr>data = Some (7::nat), nxt = Some 1\<rparr>, Some \<lparr>data = None, nxt = None\<rparr>]\<rparr>
     \<noteq> Some 1
   \<and> wait_and_pop []
       \<lparr>head = Some 0, tail = 1,
        nodes = [Some \<lparr>data = Some (7::nat), nxt = Some 1\<rparr>, Some \<lparr>data = None, nxt = None\<rparr>]\<rparr>
     = try_pop
       \<lparr>head = Some 0, tail = 1,
        nodes = [Some \<lparr>data = Some (7::nat), nxt = Some 1\<rparr>, Some \<lparr>data = None, nxt = None\<rparr>]\<rparr>
   \<and> try_pop
       \<lparr>head = Some 0, tail = 1,
        nodes = [Some \<lparr>data = Some (7::nat), nxt = Some 1\<rparr>, Some \<lparr>data = None, nxt = None\<rparr>]\<rparr>
     = ([Lock Head_mutex, Lock Tail_mutex, Unlock Tail_mutex, Unlock Head_mutex],
        Returns (Some 7)
          \<lparr>head = Some 1, tail = 1, nodes = [None, Some \<lparr>data = None, nxt = None\<rparr>]\<rparr>)
   \<and> snd (wait_and_pop
       [\<lparr>head = Some 0, tail = 1,
         nodes = [Some \<lparr>data = Some (7::nat), nxt = Some 1\<rparr>, Some \<lparr>data = None, nxt = None\<rparr>]\<rparr>]
       threadsafe_queue_new)
     = Returns (Some 7)
          \<lparr>head = Some 1, tail = 1, nodes = [None, Some \<lparr>data = None, nxt = None\<rparr>]\<rparr>"
proof -
  let ?q = "\<lparr>head = Some 0, tail = 1,
      nodes = [Some \<lparr>data = Some (7::nat), nxt = Some 1\<rparr>, Some \<lparr>data = None, nxt = None\<rparr>]\<rparr>"
  let ?new = "threadsafe_queue_new :: nat threadsafe_queue"
  have ne: "head ?q \<noteq> Some (tail ?q)" by simp
  have t: "try_pop ?q
     = ([Lock Head_mutex, Lock Tail_mutex, Unlock Tail_mutex, Unlock Head_mutex],
        Returns (Some 7)
          \<lparr>head = Some 1, tail = 1, nodes = [None, Some \<lparr>data = None, nxt = None\<rparr>]\<rparr>)"
    by (simp add: try_pop_def try_pop_head_def get_tail_def pop_head_def lookup_def destroy_def)
  have r: "snd (wait_for_data [?q] ?new) = Returns () ?q"
    by (simp add: wait_for_data_def get_tail_def threadsafe_queue_new_def)
  note th = wait_and_pop_agrees_with_try_pop
    [OF ne, where env = "[]" and v = 0 and as = "[0, 1]" and xs = "[7]"
       and ?env0.0 = "[?q]" and ?q0.0 = ?new and ?u0.0 = "()" and ?q1.0 = ?q]
  from th have 1: "wait_and_pop [] ?q = try_pop ?q" by blast
  from th r have 2: "snd (wait_and_pop [?q] ?new) = snd (try_pop ?q)" by blast
  from 1 2 t show ?thesis by simp
qed

text \<open>
  C7 (non-blocking empty outcome). Whenever \<open>head\<close> is the node \<open>tail\<close> points to, both
  \<open>try_pop\<close> overloads return, as an ordinary result, the empty outcome (the null pointer,
  respectively \<open>false\<close>) and leave the queue unchanged. Their events are the two lock
  and unlock pairs only: the condition variable is never waited on.
\<close>

theorem try_pop_empty_outcome:
  "head q = Some (tail q) \<Longrightarrow>
     try_pop q
       = ([Lock Head_mutex, Lock Tail_mutex, Unlock Tail_mutex, Unlock Head_mutex],
          Returns None q)
   \<and> try_pop_ref v q
       = ([Lock Head_mutex, Lock Tail_mutex, Unlock Tail_mutex, Unlock Head_mutex],
          Returns False (v, q))
   \<and> Wait \<notin> set (fst (try_pop q)) \<and> Wait \<notin> set (fst (try_pop_ref v q))"
  by (simp add: try_pop_at_tail)

theorem try_pop_empty_outcome_witness:
  "head (threadsafe_queue_new :: nat threadsafe_queue)
     = Some (tail (threadsafe_queue_new :: nat threadsafe_queue))
   \<and> try_pop (threadsafe_queue_new :: nat threadsafe_queue)
       = ([Lock Head_mutex, Lock Tail_mutex, Unlock Tail_mutex, Unlock Head_mutex],
          Returns None threadsafe_queue_new)
   \<and> try_pop_ref (5::nat) threadsafe_queue_new
       = ([Lock Head_mutex, Lock Tail_mutex, Unlock Tail_mutex, Unlock Head_mutex],
          Returns False (5, threadsafe_queue_new))"
proof -
  have e: "head (threadsafe_queue_new :: nat threadsafe_queue)
     = Some (tail (threadsafe_queue_new :: nat threadsafe_queue))"
    by (simp add: threadsafe_queue_new_def)
  from try_pop_empty_outcome [OF e, of 5] e show ?thesis by simp
qed

text \<open>Unlocking acquires nothing.\<close>

lemma acquisitions_snoc_Unlock: "acquisitions held (es @ [Unlock mu]) = acquisitions held es"
proof (induction es arbitrary: held)
  case Nil
  show ?case by simp
next
  case (Cons e es)
  then show ?case by (cases e) simp_all
qed

text \<open>
  Every round of the wait, entered holding the head mutex, acquires the tail mutex while
  holding the head mutex; every wake-up acquires the head mutex while holding nothing.
\<close>

lemma data_cond_wait_acquisitions:
  "\<exists>k\<le>length env.
      acquisitions [Head_mutex] (fst (data_cond_wait env q))
        = (Tail_mutex, [Head_mutex])
          # concat (replicate k [(Head_mutex, []), (Tail_mutex, [Head_mutex])])"
proof (induction env arbitrary: q)
  case Nil
  have "acquisitions [Head_mutex] (fst (data_cond_wait [] q))
          = (Tail_mutex, [Head_mutex])
            # concat (replicate 0 [(Head_mutex, []), (Tail_mutex, [Head_mutex])])"
    by (simp add: get_tail_def)
  then show ?case by blast
next
  case (Cons woken env)
  show ?case
  proof (cases "head q \<noteq> Some (tail q)")
    case True
    then have "acquisitions [Head_mutex] (fst (data_cond_wait (woken # env) q))
          = (Tail_mutex, [Head_mutex])
            # concat (replicate 0 [(Head_mutex, []), (Tail_mutex, [Head_mutex])])"
      by (simp add: get_tail_def)
    then show ?thesis by blast
  next
    case False
    from Cons.IH [of woken] obtain k where k: "k \<le> length env"
      and a: "acquisitions [Head_mutex] (fst (data_cond_wait env woken))
          = (Tail_mutex, [Head_mutex])
            # concat (replicate k [(Head_mutex, []), (Tail_mutex, [Head_mutex])])"
      by blast
    from False a have "acquisitions [Head_mutex] (fst (data_cond_wait (woken # env) q))
          = (Tail_mutex, [Head_mutex])
            # concat (replicate (Suc k) [(Head_mutex, []), (Tail_mutex, [Head_mutex])])"
      by (simp add: get_tail_def case_prod_beta)
    moreover from k have "Suc k \<le> length (woken # env)" by simp
    ultimately show ?thesis by blast
  qed
qed

lemma wait_for_data_acquisitions:
  "\<exists>k\<le>length env.
      acquisitions [] (fst (wait_for_data env q))
        = concat (replicate (Suc k) [(Head_mutex, []), (Tail_mutex, [Head_mutex])])"
proof -
  from data_cond_wait_acquisitions [of env q] obtain k where k: "k \<le> length env"
    and a: "acquisitions [Head_mutex] (fst (data_cond_wait env q))
          = (Tail_mutex, [Head_mutex])
            # concat (replicate k [(Head_mutex, []), (Tail_mutex, [Head_mutex])])"
    by blast
  from a have "acquisitions [] (fst (wait_for_data env q))
        = concat (replicate (Suc k) [(Head_mutex, []), (Tail_mutex, [Head_mutex])])"
    by (simp add: wait_for_data_def case_prod_beta)
  with k show ?thesis by blast
qed

text \<open>After the wait, the blocking pops only unlock the head mutex.\<close>

lemma wait_and_pop_acquisitions:
  "acquisitions [] (fst (wait_and_pop env q)) = acquisitions [] (fst (wait_for_data env q))"
  by (simp add: wait_and_pop_def wait_pop_head_def acquisitions_snoc_Unlock
      split: prod.splits outcome.splits option.splits)

lemma wait_and_pop_ref_acquisitions:
  "acquisitions [] (fst (wait_and_pop_ref env v q))
     = acquisitions [] (fst (wait_for_data env q))"
  by (simp add: wait_and_pop_ref_def wait_pop_head_ref_def acquisitions_snoc_Unlock
      split: prod.splits outcome.splits option.splits)

text \<open>
  C9 (lock ordering). In every state, \<open>try_pop\<close> (both overloads) and \<open>empty\<close> acquire
  exactly two mutexes: first the head mutex while holding nothing, then the tail mutex
  while holding the head mutex. \<open>wait_and_pop\<close> (both overloads) does the same once for
  each evaluation of its wait predicate: at the start and again after each of the \<open>k\<close>
  wake-ups it goes through, whatever states \<open>env\<close> it finds the queue in; with no wake-up
  that is the one pair. So in every operation the tail mutex is acquired only while the
  head mutex is held, and the head mutex only while nothing is held. \<open>push\<close> acquires the
  tail mutex only, holding nothing.
\<close>

theorem head_lock_before_tail_lock:
  "acquisitions [] (fst (try_pop q)) = [(Head_mutex, []), (Tail_mutex, [Head_mutex])]
   \<and> acquisitions [] (fst (try_pop_ref v q)) = [(Head_mutex, []), (Tail_mutex, [Head_mutex])]
   \<and> (\<exists>k\<le>length env.
        acquisitions [] (fst (wait_and_pop env q))
          = concat (replicate (Suc k) [(Head_mutex, []), (Tail_mutex, [Head_mutex])]))
   \<and> (\<exists>k\<le>length env.
        acquisitions [] (fst (wait_and_pop_ref env v q))
          = concat (replicate (Suc k) [(Head_mutex, []), (Tail_mutex, [Head_mutex])]))
   \<and> acquisitions [] (fst (wait_and_pop [] q)) = [(Head_mutex, []), (Tail_mutex, [Head_mutex])]
   \<and> acquisitions [] (fst (wait_and_pop_ref [] v q))
       = [(Head_mutex, []), (Tail_mutex, [Head_mutex])]
   \<and> acquisitions [] (fst (queue_empty q)) = [(Head_mutex, []), (Tail_mutex, [Head_mutex])]
   \<and> acquisitions [] (fst (push v q)) = [(Tail_mutex, [])]"
proof -
  have 1: "acquisitions [] (fst (try_pop q)) = [(Head_mutex, []), (Tail_mutex, [Head_mutex])]"
    by (simp add: try_pop_def try_pop_head_def get_tail_def
        split: outcome.splits option.splits)
  have 2: "acquisitions [] (fst (try_pop_ref v q))
             = [(Head_mutex, []), (Tail_mutex, [Head_mutex])]"
    by (simp add: try_pop_ref_def try_pop_head_ref_def get_tail_def
        split: outcome.splits option.splits)
  have 3: "\<exists>k\<le>length env.
        acquisitions [] (fst (wait_and_pop env q))
          = concat (replicate (Suc k) [(Head_mutex, []), (Tail_mutex, [Head_mutex])])"
    unfolding wait_and_pop_acquisitions by (rule wait_for_data_acquisitions)
  have 4: "\<exists>k\<le>length env.
        acquisitions [] (fst (wait_and_pop_ref env v q))
          = concat (replicate (Suc k) [(Head_mutex, []), (Tail_mutex, [Head_mutex])])"
    unfolding wait_and_pop_ref_acquisitions by (rule wait_for_data_acquisitions)
  have 5: "acquisitions [] (fst (wait_and_pop [] q))
             = [(Head_mutex, []), (Tail_mutex, [Head_mutex])]"
    using wait_for_data_acquisitions [of "[]" q] by (simp add: wait_and_pop_acquisitions)
  have 6: "acquisitions [] (fst (wait_and_pop_ref [] v q))
             = [(Head_mutex, []), (Tail_mutex, [Head_mutex])]"
    using wait_for_data_acquisitions [of "[]" q] by (simp add: wait_and_pop_ref_acquisitions)
  have 7: "acquisitions [] (fst (queue_empty q))
             = [(Head_mutex, []), (Tail_mutex, [Head_mutex])]"
    by (simp add: queue_empty_def get_tail_def)
  have 8: "acquisitions [] (fst (push v q)) = [(Tail_mutex, [])]"
    by (simp add: push_def new_node_def Let_def split: option.splits)
  from 1 2 3 4 5 6 7 8 show ?thesis by blast
qed

text \<open>
  A \<open>wait_and_pop\<close> on the empty queue that suspends, is woken once and finds the queue
  holding 7: it locks head, locks and unlocks tail, releases head and waits; woken, it
  locks head again, locks and unlocks tail, removes the node and unlocks head.
\<close>

theorem head_lock_before_tail_lock_witness:
  "fst (wait_and_pop
         [\<lparr>head = Some 0, tail = 1,
           nodes = [Some \<lparr>data = Some (7::nat), nxt = Some 1\<rparr>,
                    Some \<lparr>data = None, nxt = None\<rparr>]\<rparr>]
         threadsafe_queue_new)
     = [Lock Head_mutex, Lock Tail_mutex, Unlock Tail_mutex, Unlock Head_mutex, Wait,
        Lock Head_mutex, Lock Tail_mutex, Unlock Tail_mutex, Unlock Head_mutex]
   \<and> acquisitions []
        (fst (wait_and_pop
               [\<lparr>head = Some 0, tail = 1,
                 nodes = [Some \<lparr>data = Some (7::nat), nxt = Some 1\<rparr>,
                          Some \<lparr>data = None, nxt = None\<rparr>]\<rparr>]
               threadsafe_queue_new))
     = [(Head_mutex, []), (Tail_mutex, [Head_mutex]),
        (Head_mutex, []), (Tail_mutex, [Head_mutex])]"
proof -
  let ?q = "\<lparr>head = Some 0, tail = 1,
      nodes = [Some \<lparr>data = Some (7::nat), nxt = Some 1\<rparr>, Some \<lparr>data = None, nxt = None\<rparr>]\<rparr>"
  let ?new = "threadsafe_queue_new :: nat threadsafe_queue"
  have e: "fst (wait_and_pop [?q] ?new)
     = [Lock Head_mutex, Lock Tail_mutex, Unlock Tail_mutex, Unlock Head_mutex, Wait,
        Lock Head_mutex, Lock Tail_mutex, Unlock Tail_mutex, Unlock Head_mutex]"
    by (simp add: wait_and_pop_def wait_pop_head_def wait_for_data_def get_tail_def
        threadsafe_queue_new_def pop_head_def lookup_def)
  have c: "acquisitions [] (fst (wait_and_pop [?q] ?new))
     = [(Head_mutex, []), (Tail_mutex, [Head_mutex]),
        (Head_mutex, []), (Tail_mutex, [Head_mutex])]"
    unfolding e by simp
  from head_lock_before_tail_lock [of ?new 0 "[?q]"] obtain k where "k \<le> length [?q]"
    and a: "acquisitions [] (fst (wait_and_pop [?q] ?new))
          = concat (replicate (Suc k) [(Head_mutex, []), (Tail_mutex, [Head_mutex])])"
    by blast
  from a c have "concat (replicate (Suc k) [(Head_mutex, []), (Tail_mutex, [Head_mutex])])
     = [(Head_mutex, []), (Tail_mutex, [Head_mutex]),
        (Head_mutex, []), (Tail_mutex, [Head_mutex])]"
    by (simp only:)
  with c e show ?thesis by (simp only: simp_thms)
qed

text \<open>
  C10 (the failing out-parameter pop leaves the storage alone). Whenever \<open>head\<close> is the
  node \<open>tail\<close> points to, \<open>try_pop(value)\<close> returns \<open>false\<close> with the caller's storage
  holding what it held before, whatever that was, and with the queue unchanged. And in
  any state \<open>q2\<close>, a call that returns \<open>false\<close> has not written to the storage.
\<close>

theorem try_pop_ref_empty_keeps_storage:
  "head q = Some (tail q) \<Longrightarrow>
     snd (try_pop_ref v q) = Returns False (v, q)
   \<and> snd (try_pop_head_ref v q) = Returns None (v, q)
   \<and> (snd (try_pop_ref v2 q2) = Returns False (v2', q2') \<longrightarrow> v2' = v2 \<and> q2' = q2)"
proof -
  assume e: "head q = Some (tail q)"
  have 1: "snd (try_pop_ref v q) = Returns False (v, q)"
    by (simp add: try_pop_at_tail(2) [OF e])
  have 2: "snd (try_pop_head_ref v q) = Returns None (v, q)"
    using e by (simp add: try_pop_head_ref_def get_tail_def)
  have 3: "v2' = v2 \<and> q2' = q2" if "snd (try_pop_ref v2 q2) = Returns False (v2', q2')"
    using that
    by (auto simp: try_pop_ref_def try_pop_head_ref_def get_tail_def destroy_None
        split: if_splits option.splits outcome.splits)
  from 1 2 3 show ?thesis by blast
qed

theorem try_pop_ref_empty_keeps_storage_witness:
  "head (threadsafe_queue_new :: nat threadsafe_queue)
     = Some (tail (threadsafe_queue_new :: nat threadsafe_queue))
   \<and> snd (try_pop_ref (5::nat) threadsafe_queue_new) = Returns False (5, threadsafe_queue_new)"
proof -
  have e: "head (threadsafe_queue_new :: nat threadsafe_queue)
     = Some (tail (threadsafe_queue_new :: nat threadsafe_queue))"
    by (simp add: threadsafe_queue_new_def)
  from try_pop_ref_empty_keeps_storage [OF e, of 5 5 threadsafe_queue_new 5 threadsafe_queue_new] e
  show ?thesis by blast
qed

end
